theory Spec2Isabelle
  imports Complex_Main
begin

section \<open>Errors and arrays\<close>

text \<open>
  The script \<^verbatim>\<open>sk_kernel_counter_batch.py\<close> works on numpy arrays. A two-dimensional array is
  a list of rows. Every exception the script can meet is a value of \<open>error\<close>; a function
  that can raise returns \<open>error + 'a\<close>, with \<open>Inl\<close> for the exception.
\<close>

datatype error = ValueError | IndexError

definition bind_e :: "error + 'a \<Rightarrow> ('a \<Rightarrow> error + 'b) \<Rightarrow> error + 'b" where
  "bind_e r f = (case r of Inl e \<Rightarrow> Inl e | Inr x \<Rightarrow> f x)"

type_synonym mask = "int list list"

text \<open>
  \<^verbatim>\<open>np.max(a)\<close>: the largest entry; numpy raises ValueError on an array with no entry.
\<close>

definition np_max :: "int list list \<Rightarrow> error + int" where
  "np_max a = (case concat a of [] \<Rightarrow> Inl ValueError | x # xs \<Rightarrow> Inr (fold max xs x))"

section \<open>Remove segments that touch the bottom edge\<close>

text \<open>
  \<^verbatim>\<open>
  def remove_bottom_edge(labeled_image_mask):
      mask = labeled_image_mask
      for object_num in range(1, (np.max(mask) + 1)):
          if object_num in mask[(mask.shape[0] - 1),:]:
              mask[mask == object_num] = 0
      return mask
  \<close>
  The range is computed once, before the loop. \<open>zero_label\<close> is the assignment
  \<^verbatim>\<open>mask[mask == object_num] = 0\<close>, \<open>remove_step\<close> one pass of the loop body on the
  current mask, whose last row is \<^verbatim>\<open>mask[mask.shape[0] - 1, :]\<close>. The mutated mask is
  returned as the new value.
\<close>

definition zero_label :: "int \<Rightarrow> mask \<Rightarrow> mask" where
  "zero_label object_num m = map (map (\<lambda>v. if v = object_num then 0 else v)) m"

definition remove_step :: "mask \<Rightarrow> int \<Rightarrow> mask" where
  "remove_step m object_num =
     (if object_num \<in> set (last m) then zero_label object_num m else m)"

definition remove_bottom_edge :: "mask \<Rightarrow> error + mask" where
  "remove_bottom_edge m =
     (case np_max m of
        Inl e \<Rightarrow> Inl e
      | Inr mx \<Rightarrow> Inr (foldl remove_step m [1..mx]))"

section \<open>Floating-point values\<close>

text \<open>
  A numpy float is a rational or one of the three special values; the operations the
  script uses are exact on rationals here (rounding of binary64 is not modelled).
  \<open>np_div\<close> is numpy's division of two finite numbers: \<open>0/0\<close> is NaN, a nonzero number
  over zero is an infinity, and neither raises. \<open>np_mean\<close> is \<^verbatim>\<open>np.mean\<close> of a
  one-dimensional array: the sum over the number of entries, NaN for the empty array.
  \<open>float_less\<close> is \<^verbatim>\<open><\<close>: false whenever an operand is NaN.
\<close>

datatype npfloat = Fin rat | NaN | PInf | NInf

definition np_div :: "rat \<Rightarrow> rat \<Rightarrow> npfloat" where
  "np_div a b =
     (if b \<noteq> 0 then Fin (a / b) else if a = 0 then NaN else if 0 < a then PInf else NInf)"

fun fin_values :: "npfloat list \<Rightarrow> rat list" where
  "fin_values [] = []"
| "fin_values (Fin x # xs) = x # fin_values xs"
| "fin_values (_ # xs) = fin_values xs"

definition np_mean :: "npfloat list \<Rightarrow> npfloat" where
  "np_mean xs =
     (if xs = [] \<or> NaN \<in> set xs \<or> (PInf \<in> set xs \<and> NInf \<in> set xs) then NaN
      else if PInf \<in> set xs then PInf
      else if NInf \<in> set xs then NInf
      else np_div (sum_list (fin_values xs)) (of_nat (length xs)))"

definition float_less :: "npfloat \<Rightarrow> npfloat \<Rightarrow> bool" where
  "float_less a b =
     (case a of
        Fin x \<Rightarrow> (case b of Fin y \<Rightarrow> x < y | PInf \<Rightarrow> True | _ \<Rightarrow> False)
      | NInf \<Rightarrow> (case b of Fin y \<Rightarrow> True | PInf \<Rightarrow> True | _ \<Rightarrow> False)
      | _ \<Rightarrow> False)"

section \<open>Crop edges\<close>

text \<open>
  \<^verbatim>\<open>
  def crop_edges(input_image, input_percent):
      crop_column_width = image.shape[1]
      left_crop_column = int(round(percent * crop_column_width))
      right_crop_column =  int(round(crop_column_width - (percent * crop_column_width)))
      cropped_image = image[:, left_crop_column:right_crop_column]
      return cropped_image
  \<close>
  \<open>py_round\<close> is Python 3's \<^verbatim>\<open>round\<close> of a float to an integer: to the nearest integer,
  a tie to the even one. \<open>py_slice\<close> is the slice \<^verbatim>\<open>xs[start:stop]\<close>: a negative bound
  counts from the end, both bounds are clamped to the length, and an empty range gives
  the empty list; it never raises. \<open>shape1\<close> is \<^verbatim>\<open>image.shape[1]\<close>, the length of a row
  (an image read from a file has at least one row).
\<close>

definition py_round :: "rat \<Rightarrow> int" where
  "py_round x =
     (let f = \<lfloor>x\<rfloor>; d = x - of_int f
      in if d < 1 / 2 then f else if 1 / 2 < d then f + 1 else if even f then f else f + 1)"

definition py_slice :: "int \<Rightarrow> int \<Rightarrow> 'a list \<Rightarrow> 'a list" where
  "py_slice start stop xs =
     (let n = int (length xs);
          lo = (if start < 0 then max (start + n) 0 else min start n);
          hi = (if stop < 0 then max (stop + n) 0 else min stop n)
      in take (nat (hi - lo)) (drop (nat lo) xs))"

definition shape1 :: "'a list list \<Rightarrow> nat" where
  "shape1 img = (case img of [] \<Rightarrow> 0 | r # _ \<Rightarrow> length r)"

definition left_crop_column :: "nat \<Rightarrow> rat \<Rightarrow> int" where
  "left_crop_column crop_column_width percent = py_round (percent * of_nat crop_column_width)"

definition right_crop_column :: "nat \<Rightarrow> rat \<Rightarrow> int" where
  "right_crop_column crop_column_width percent =
     py_round (of_nat crop_column_width - percent * of_nat crop_column_width)"

definition crop_edges :: "'a list list \<Rightarrow> rat \<Rightarrow> 'a list list" where
  "crop_edges input_image percent =
     (let crop_column_width = shape1 input_image
      in map (py_slice (left_crop_column crop_column_width percent)
                       (right_crop_column crop_column_width percent)) input_image)"

section \<open>Library functions\<close>

text \<open>
  The functions of scipy, scikit-image and scikit-learn the script calls are parameters of
  the model, one field each; every one of them may raise. An RGB image read from a file
  is an array of triples of bytes; a single-channel float image is an array of rationals.
\<close>

type_synonym image = "(nat \<times> nat \<times> nat) list list"
type_synonym rgb = "npfloat \<times> npfloat \<times> npfloat"

record lib =
  gaussian_filter :: "rat list list \<Rightarrow> error + rat list list"
  reconstruction :: "rat list list \<Rightarrow> rat list list \<Rightarrow> error + rat list list"
  rgb2gray :: "rat list list \<Rightarrow> error + rat list list"
  img_as_ubyte :: "rat list list \<Rightarrow> error + nat list list"
  rescale_intensity :: "nat list list \<Rightarrow> error + nat list list"
  sobel :: "nat list list \<Rightarrow> error + rat list list"
  watershed :: "rat list list \<Rightarrow> nat list list \<Rightarrow> error + int list list"
  binary_fill_holes :: "int list list \<Rightarrow> error + bool list list"
  binary_opening :: "bool list list \<Rightarrow> error + bool list list"
  ndi_label :: "bool list list \<Rightarrow> error + int list list"
  kmeans_fit :: "rgb list \<Rightarrow> error + nat list"

section \<open>Filter regional maxima\<close>

text \<open>
  \<^verbatim>\<open>
  def filter_regional_maxima(input_image, input_h):
      image = img_as_float(input_image)
      image = image[:,:,2]
      image = gaussian_filter(image, 1)
      h = input_h
      seed = image - h
      mask = image
      dilated = reconstruction(seed, mask, method='dilation')
      hdome = image - dilated
      return hdome
  \<close>
  \<open>img_as_float\<close> of a byte is the byte over 255. \<open>np_sub\<close> is the difference of two
  arrays of one shape (numpy raises ValueError when the shapes cannot be combined).
\<close>

definition img_as_float :: "nat \<Rightarrow> rat" where
  "img_as_float v = of_nat v / 255"

definition np_sub :: "rat list list \<Rightarrow> rat list list \<Rightarrow> error + rat list list" where
  "np_sub a b =
     (if map length a \<noteq> map length b then Inl ValueError
      else Inr (map (\<lambda>(ra, rb). map (\<lambda>(x, y). x - y) (zip ra rb)) (zip a b)))"

definition filter_regional_maxima :: "lib \<Rightarrow> image \<Rightarrow> rat \<Rightarrow> error + rat list list" where
  "filter_regional_maxima L input_image input_h =
     bind_e (gaussian_filter L (map (map (\<lambda>(r, g, b). img_as_float b)) input_image))
       (\<lambda>blurred.
          let h = input_h;
              seed = map (map (\<lambda>v. v - h)) blurred;
              mask = blurred
          in bind_e (reconstruction L seed mask) (\<lambda>dilated. np_sub blurred dilated))"

section \<open>Region-based segmentation\<close>

text \<open>
  \<^verbatim>\<open>
  def region_based_segmentation(input_hdome, marker_low, marker_high):
      hdome = rgb2gray(hdome)
      hdome = img_as_ubyte(hdome)
      hdome = exposure.rescale_intensity(hdome)
      elevation_map = sobel(hdome)
      markers = np.zeros_like(hdome)
      markers[hdome < marker_low] = 1
      markers[hdome > marker_high] = 2
      segmentation = watershed(elevation_map, markers)
      segmentation = ndi.binary_fill_holes(segmentation - 1)
      segmentation = binary_opening(segmentation, selem=disk(5))
      labeled_image, _ = ndi.label(segmentation)
      return labeled_image
  \<close>
  \<open>markers_of\<close> is the three marker lines: the second assignment overwrites the first.
\<close>

definition markers_of :: "nat list list \<Rightarrow> int \<Rightarrow> int \<Rightarrow> nat list list" where
  "markers_of hdome marker_low marker_high =
     map (map (\<lambda>v. if marker_high < int v then 2 else if int v < marker_low then 1 else 0)) hdome"

definition region_based_segmentation ::
  "lib \<Rightarrow> rat list list \<Rightarrow> int \<Rightarrow> int \<Rightarrow> error + mask" where
  "region_based_segmentation L input_hdome marker_low marker_high =
     bind_e (rgb2gray L input_hdome) (\<lambda>gray.
     bind_e (img_as_ubyte L gray) (\<lambda>bytes.
     bind_e (rescale_intensity L bytes) (\<lambda>hdome.
     bind_e (sobel L hdome) (\<lambda>elevation_map.
     bind_e (watershed L elevation_map (markers_of hdome marker_low marker_high)) (\<lambda>segmentation.
     bind_e (binary_fill_holes L (map (map (\<lambda>v. v - 1)) segmentation)) (\<lambda>filled.
     bind_e (binary_opening L filled) (\<lambda>opened.
     ndi_label L opened)))))))"

section \<open>Find segment centers\<close>

text \<open>
  \<^verbatim>\<open>
  def find_centers(input_array):
      centers = ndi.center_of_mass(array, array, list(range(1, array.max() + 1)))
      centers_no_nan = [x for x in centers if str(x[0]) != 'nan']
      return centers_no_nan
  \<close>
  \<open>center_of_mass input labels l\<close> is scipy's centre of mass of the pixels labelled \<open>l\<close>,
  weighted by \<open>input\<close>: the weighted sum of each coordinate over the sum of the weights,
  without raising when the weights sum to zero. The script passes the mask as the
  weights too. \<open>pixel_index\<close> lists the positions of an array in row-major order.
\<close>

definition pixel_index :: "'a list list \<Rightarrow> (nat \<times> nat) list" where
  "pixel_index a = concat (map (\<lambda>i. map (\<lambda>j. (i, j)) [0..<length (a ! i)]) [0..<length a])"

definition labelled_pixels :: "mask \<Rightarrow> int \<Rightarrow> (nat \<times> nat) list" where
  "labelled_pixels labels l = filter (\<lambda>(i, j). labels ! i ! j = l) (pixel_index labels)"

definition center_of_mass :: "int list list \<Rightarrow> mask \<Rightarrow> int \<Rightarrow> npfloat \<times> npfloat" where
  "center_of_mass input labels l =
     (let ps = labelled_pixels labels l;
          normalizer = sum_list (map (\<lambda>(i, j). of_int (input ! i ! j)) ps)
      in (np_div (sum_list (map (\<lambda>(i, j). of_nat i * of_int (input ! i ! j)) ps)) normalizer,
          np_div (sum_list (map (\<lambda>(i, j). of_nat j * of_int (input ! i ! j)) ps)) normalizer))"

definition find_centers :: "mask \<Rightarrow> error + (npfloat \<times> npfloat) list" where
  "find_centers array =
     (case np_max array of
        Inl e \<Rightarrow> Inl e
      | Inr mx \<Rightarrow> Inr (filter (\<lambda>x. fst x \<noteq> NaN) (map (center_of_mass array array) [1..mx])))"

section \<open>Get mean intensity\<close>

text \<open>
  \<^verbatim>\<open>
  def mean_intensity(input_image, input_mask):
      red_image = input_image[:,:,0]
      green_image = input_image[:,:,1]
      blue_image = input_image[:,:,2]
      mask = input_mask
      output_red_intensity = list()
      output_green_intensity = list()
      output_blue_intensity = list()
      for object_num in range(1, (np.max(mask) + 1)):
          if object_num in mask:
              red_mean_intensity = np.mean(red_image[mask == object_num])
              green_mean_intensity = np.mean(green_image[mask == object_num])
              blue_mean_intensity = np.mean(blue_image[mask == object_num])
              output_red_intensity.append(red_mean_intensity)
              output_green_intensity.append(green_mean_intensity)
              output_blue_intensity.append(blue_mean_intensity)
      rgb_intensity = np.column_stack((output_red_intensity,
                                       output_green_intensity,
                                       output_blue_intensity))
      return rgb_intensity
  \<close>
  \<open>select_mask a mask l\<close> is \<^verbatim>\<open>a[mask == l]\<close>: numpy raises IndexError when the boolean
  array has another shape than \<open>a\<close>. The three output lists grow together, so the model
  keeps one list of triples, the rows of \<^verbatim>\<open>rgb_intensity\<close>.
\<close>

definition select_mask :: "nat list list \<Rightarrow> mask \<Rightarrow> int \<Rightarrow> error + nat list" where
  "select_mask a m l =
     (if map length a \<noteq> map length m then Inl IndexError
      else Inr (map (\<lambda>(i, j). a ! i ! j) (labelled_pixels m l)))"

definition object_means :: "image \<Rightarrow> mask \<Rightarrow> int \<Rightarrow> error + rgb" where
  "object_means input_image m object_num =
     bind_e (select_mask (map (map (\<lambda>(r, g, b). r)) input_image) m object_num) (\<lambda>reds.
     bind_e (select_mask (map (map (\<lambda>(r, g, b). g)) input_image) m object_num) (\<lambda>greens.
     bind_e (select_mask (map (map (\<lambda>(r, g, b). b)) input_image) m object_num) (\<lambda>blues.
     Inr (np_mean (map (\<lambda>v. Fin (of_nat v)) reds),
          np_mean (map (\<lambda>v. Fin (of_nat v)) greens),
          np_mean (map (\<lambda>v. Fin (of_nat v)) blues)))))"

fun mean_intensity_loop :: "image \<Rightarrow> mask \<Rightarrow> int list \<Rightarrow> rgb list \<Rightarrow> error + rgb list" where
  "mean_intensity_loop input_image m [] out = Inr out"
| "mean_intensity_loop input_image m (object_num # rest) out =
     (if object_num \<in> set (concat m) then
        (case object_means input_image m object_num of
           Inl e \<Rightarrow> Inl e
         | Inr t \<Rightarrow> mean_intensity_loop input_image m rest (out @ [t]))
      else mean_intensity_loop input_image m rest out)"

definition mean_intensity :: "image \<Rightarrow> mask \<Rightarrow> error + rgb list" where
  "mean_intensity input_image input_mask =
     (case np_max input_mask of
        Inl e \<Rightarrow> Inl e
      | Inr mx \<Rightarrow> mean_intensity_loop input_image input_mask [1..mx] [])"

text \<open>
  The surviving labels in the specification's words: the positive labels that have at
  least one pixel in the mask, in ascending order.
\<close>

definition surviving_labels :: "mask \<Rightarrow> int list" where
  "surviving_labels m = sorted_list_of_set (Set.filter (\<lambda>l. 0 < l) (set (concat m)))"

section \<open>K-means and the greener cluster\<close>

text \<open>
  \<^verbatim>\<open>
  def kmeans_from_rgb(rgb_input):
      kmeans = KMeans(n_clusters=2).fit(rgb)
      return kmeans

  def which_is_more_green(rgb_input, kmeans_input):
      kmeans = kmeans_input
      all_green_intensity = rgb_input[:,1]
      label_0_green_mean = np.mean(all_green_intensity[[not i for i in kmeans_input.labels_]])
      label_1_green_mean = np.mean(all_green_intensity[kmeans_input.labels_])
      if label_0_green_mean < label_1_green_mean:
          labels = kmeans.labels_
          labels[labels == 0] = 3
          labels[labels == 1] = 0
          labels[labels == 3] = 1
          kmeans.labels_ = labels
      return(kmeans)
  \<close>
  Of the fitted model only \<^verbatim>\<open>labels_\<close> is used, an integer array with one cluster index
  per row, so the model of a fitted k-means is its label list.

  The first index is a Python list of booleans: numpy selects the entries at the true
  positions (\<open>bool_index\<close>; IndexError when the lengths differ, the empty list selects
  nothing). The second index is the integer array \<^verbatim>\<open>labels_\<close> itself: numpy takes the
  entry at each position the array names (\<open>int_index\<close>; IndexError when a position is
  out of range).
\<close>

definition kmeans_from_rgb :: "lib \<Rightarrow> rgb list \<Rightarrow> error + nat list" where
  "kmeans_from_rgb L rgb_input = kmeans_fit L rgb_input"

definition bool_index :: "'a list \<Rightarrow> bool list \<Rightarrow> error + 'a list" where
  "bool_index a bs =
     (if bs = [] then Inr []
      else if length bs \<noteq> length a then Inl IndexError
      else Inr (map fst (filter snd (zip a bs))))"

definition int_index :: "'a list \<Rightarrow> nat list \<Rightarrow> error + 'a list" where
  "int_index a ns =
     (if list_all (\<lambda>n. n < length a) ns then Inr (map (\<lambda>n. a ! n) ns) else Inl IndexError)"

definition swap_labels :: "nat list \<Rightarrow> nat list" where
  "swap_labels labels =
     map (\<lambda>l. if l = 3 then 1 else l)
       (map (\<lambda>l. if l = 1 then 0 else l)
         (map (\<lambda>l. if l = 0 then 3 else l) labels))"

definition which_is_more_green :: "rgb list \<Rightarrow> nat list \<Rightarrow> error + nat list" where
  "which_is_more_green rgb_input labels =
     (let all_green_intensity = map (\<lambda>(r, g, b). g) rgb_input
      in bind_e (bool_index all_green_intensity (map (\<lambda>i. i = 0) labels)) (\<lambda>greens_0.
         bind_e (int_index all_green_intensity labels) (\<lambda>greens_1.
           let label_0_green_mean = np_mean greens_0;
               label_1_green_mean = np_mean greens_1
           in if float_less label_0_green_mean label_1_green_mean
              then Inr (swap_labels labels)
              else Inr labels)))"

text \<open>
  The mean channel-1 intensity over the members of a group, as the specification words
  it: the mean of the green values of the rows whose label is the group's.
\<close>

definition group_green_mean :: "rgb list \<Rightarrow> nat list \<Rightarrow> nat \<Rightarrow> npfloat" where
  "group_green_mean rgb_input labels g =
     np_mean (map (\<lambda>((r, gr, b), l). gr) (filter (\<lambda>(t, l). l = g) (zip rgb_input labels)))"

section \<open>The pipeline\<close>

text \<open>
  \<^verbatim>\<open>
  def count_kernels(input_image, crop_percentage, h_dome_value, watershed_low, watershed_high):
      raw_image = io.imread(input_image)
      image = crop_edges(raw_image, crop_percentage)
      hdome = filter_regional_maxima(image, h_dome_value)
      image_segments = region_based_segmentation(hdome, watershed_low, watershed_high)
      image_segments = remove_bottom_edge(image_segments)
      segment_centers = find_centers(image_segments)
      rgb_intensity = mean_intensity(image, image_segments)
      if(rgb_intensity.shape[0] == 0):
          return([0, 0])
      kmeans = kmeans_from_rgb(rgb_intensity)
      kmeans = which_is_more_green(rgb_intensity, kmeans)
      centers_y, centers_x = zip(*segment_centers)
      centers_y = np.asarray(centers_y)
      centers_x = np.asarray(centers_x)
      labels = kmeans.labels_
      data_array = np.column_stack((centers_x, centers_y, labels))
      unique, counts = np.unique(data_array[:, [2]], return_counts = True)
      return(counts)
  \<close>
  The model starts from the image \<^verbatim>\<open>io.imread\<close> returned. Unpacking
  \<^verbatim>\<open>zip(*segment_centers)\<close> into two names raises ValueError when there is no centre, and
  \<^verbatim>\<open>np.column_stack\<close> raises ValueError when the columns differ in length.
  \<open>np_unique_counts\<close> is the second result of \<^verbatim>\<open>np.unique(..., return_counts=True)\<close>: for
  each distinct value, in ascending order, how often it occurs.
\<close>

definition np_unique_counts :: "nat list \<Rightarrow> nat list" where
  "np_unique_counts xs = map (count_list xs) (sort (remdups xs))"

definition count_kernels ::
  "lib \<Rightarrow> image \<Rightarrow> rat \<Rightarrow> rat \<Rightarrow> int \<Rightarrow> int \<Rightarrow> error + nat list" where
  "count_kernels L raw_image crop_percentage h_dome_value watershed_low watershed_high =
     (let cropped = crop_edges raw_image crop_percentage
      in bind_e (filter_regional_maxima L cropped h_dome_value) (\<lambda>hdome.
         bind_e (region_based_segmentation L hdome watershed_low watershed_high) (\<lambda>labeled.
         bind_e (remove_bottom_edge labeled) (\<lambda>image_segments.
         bind_e (find_centers image_segments) (\<lambda>segment_centers.
         bind_e (mean_intensity cropped image_segments) (\<lambda>rgb_intensity.
           if length rgb_intensity = 0 then Inr [0, 0]
           else
             bind_e (kmeans_from_rgb L rgb_intensity) (\<lambda>kmeans.
             bind_e (which_is_more_green rgb_intensity kmeans) (\<lambda>labels.
               if segment_centers = [] \<or> length segment_centers \<noteq> length labels
               then Inl ValueError
               else Inr (np_unique_counts labels)))))))))"

text \<open>
  The script's command line and its loop over the images:
  \<^verbatim>\<open>
  parser.add_argument('-p', '--image_crop_percentage', type=float, default=0.15, ...)
  parser.add_argument('-d', '--h_dome_value', type=float, default=0.3, ...)
  parser.add_argument('-wl', '--watershed_low', type=int, default=20, ...)
  parser.add_argument('-wh', '--watershed_high', type=int, default=80, ...)
  args = parser.parse_args()
  ...
  for image in input_image_list:
      count_kernels_output = count_kernels(image, args.image_crop_percentage,
          args.h_dome_value, args.watershed_low, args.watershed_high)
      fluor_kernel_count.append(count_kernels_output[0])
      nonfluor_kernel_count.append(count_kernels_output[1])
  \<close>
  \<open>parse_args\<close> takes the value of each option after argparse converted it (\<open>None\<close> when
  the option is absent) and fills in the defaults. \<open>py_index\<close> is \<^verbatim>\<open>xs[n]\<close> for a
  non-negative \<open>n\<close>, IndexError out of range.
\<close>

record args =
  image_crop_percentage :: rat
  h_dome_value :: rat
  watershed_low :: int
  watershed_high :: int


definition py_index :: "'a list \<Rightarrow> nat \<Rightarrow> error + 'a" where
  "py_index xs n = (if n < length xs then Inr (xs ! n) else Inl IndexError)"

definition kernel_counts :: "lib \<Rightarrow> args \<Rightarrow> image \<Rightarrow> error + nat \<times> nat" where
  "kernel_counts L a raw_image =
     bind_e (count_kernels L raw_image (image_crop_percentage a) (h_dome_value a)
               (watershed_low a) (watershed_high a)) (\<lambda>count_kernels_output.
     bind_e (py_index count_kernels_output 0) (\<lambda>fluor.
     bind_e (py_index count_kernels_output 1) (\<lambda>nonfluor.
     Inr (fluor, nonfluor))))"


section \<open>Morphological reconstruction by dilation\<close>

text \<open>
  Modelled from the spec: \<^verbatim>\<open>skimage.morphology.reconstruction\<close> is not part of the script.
  The specification describes it as grayscale morphological reconstruction by dilation
  of the seed under the mask, which propagates seed values upward but never above the
  mask. The definitions below are that operation on a rectangular image.
\<close>

text \<open>
  Modelled from the spec: the 3 by 3 neighbourhood of a pixel inside the image, the
  footprint of the dilation.
\<close>

definition neighbourhood :: "rat list list \<Rightarrow> nat \<Rightarrow> nat \<Rightarrow> rat list" where
  "neighbourhood r i j =
     concat (map (\<lambda>i'. map (\<lambda>j'. r ! i' ! j') [j - 1 ..< min (length (r ! i')) (j + 2)])
                 [i - 1 ..< min (length r) (i + 2)])"

text \<open>
  Modelled from the spec: one geodesic dilation, the dilation of \<open>r\<close> capped pointwise by
  the mask (``propagates seed values upward but never above the mask'').
\<close>

definition geodesic_dilation :: "rat list list \<Rightarrow> rat list list \<Rightarrow> rat list list" where
  "geodesic_dilation msk r =
     map (\<lambda>i. map (\<lambda>j. min (fold max (neighbourhood r i j) (r ! i ! j)) (msk ! i ! j))
                 [0..<length (r ! i)])
         [0..<length r]"

text \<open>
  Modelled from the spec: geodesic dilations repeated until the image no longer changes.
\<close>

function reconstruct_loop :: "rat list list \<Rightarrow> rat list list \<Rightarrow> rat list list" where
  "reconstruct_loop msk r =
     (let r' = geodesic_dilation msk r in if r' = r then r else reconstruct_loop msk r')"
  by pat_completeness auto

text \<open>
  Modelled from the spec: \<^verbatim>\<open>reconstruction(seed, mask, method='dilation')\<close>. Seed and mask
  must have one shape and the seed must not exceed the mask anywhere, else ValueError.
\<close>

definition reconstruction_by_dilation ::
  "rat list list \<Rightarrow> rat list list \<Rightarrow> error + rat list list" where
  "reconstruction_by_dilation seed msk =
     (if map length seed \<noteq> map length msk then Inl ValueError
      else if list_ex (\<lambda>(rs, rm). list_ex (\<lambda>(s, m). m < s) (zip rs rm)) (zip seed msk)
      then Inl ValueError
      else Inr (reconstruct_loop msk seed))"

text \<open>
  For the termination of the loop: \<open>below\<close> says that an image does not exceed the mask,
  \<open>level_set\<close> collects the values an image can take during the loop, and \<open>headroom\<close>
  counts, over all pixels, the values still above the pixel.
\<close>

definition below :: "rat list list \<Rightarrow> rat list list \<Rightarrow> bool" where
  "below msk r = list_all (\<lambda>(i, j). r ! i ! j \<le> msk ! i ! j) (pixel_index r)"

definition level_set :: "rat list list \<Rightarrow> rat list list \<Rightarrow> rat set" where
  "level_set msk r =
     (\<lambda>(i, j). r ! i ! j) ` set (pixel_index r) \<union> (\<lambda>(i, j). msk ! i ! j) ` set (pixel_index r)"

definition headroom :: "rat list list \<Rightarrow> rat list list \<Rightarrow> nat" where
  "headroom msk r =
     sum_list (map (\<lambda>(i, j). card {v \<in> level_set msk r. r ! i ! j < v}) (pixel_index r))"

section \<open>A stand-in library\<close>

text \<open>
  To run the pipeline on a concrete image the library functions need values. In
  \<open>stub_lib labeled fit\<close> the filters are the identity or constant, the connected-component
  labelling returns the mask \<open>labeled\<close>, and the clustering is \<open>fit\<close>.
\<close>

definition stub_lib :: "mask \<Rightarrow> (rgb list \<Rightarrow> error + nat list) \<Rightarrow> lib" where
  "stub_lib labeled fit =
     \<lparr>gaussian_filter = Inr,
      reconstruction = (\<lambda>seed m. Inr seed),
      rgb2gray = Inr,
      img_as_ubyte = (\<lambda>a. Inr (map (map (\<lambda>v. 0)) a)),
      rescale_intensity = Inr,
      sobel = (\<lambda>a. Inr (map (map (\<lambda>v. 0)) a)),
      watershed = (\<lambda>e mk. Inr (map (map int) mk)),
      binary_fill_holes = (\<lambda>a. Inr (map (map (\<lambda>v. v \<noteq> 0)) a)),
      binary_opening = Inr,
      ndi_label = (\<lambda>a. Inr labeled),
      kmeans_fit = fit\<rparr>"

section \<open>Properties of the bottom-edge filter\<close>

lemma fold_max_eq_Max: "fold max xs (x::int) = Max (set (x # xs))"
  by (rule Max.set_eq_fold [symmetric])

lemma np_max_Inr:
  assumes "np_max a = Inr mx"
  shows "concat a \<noteq> [] \<and> mx = Max (set (concat a))"
proof -
  from assms obtain x xs where c: "concat a = x # xs" and m: "mx = fold max xs x"
    by (auto simp: np_max_def split: list.splits)
  from m have "mx = Max (set (concat a))"
    unfolding c by (simp only: fold_max_eq_Max)
  with c show ?thesis by simp
qed

lemma np_max_total: "concat a \<noteq> [] \<Longrightarrow> \<exists>mx. np_max a = Inr mx"
  by (auto simp: np_max_def split: list.splits)

lemma np_max_upper:
  assumes "np_max a = Inr mx" and "r \<in> set a" and "v \<in> set r"
  shows "v \<le> mx"
proof -
  from np_max_Inr [OF assms(1)] have "mx = Max (set (concat a))" by blast
  moreover from assms(2,3) have "v \<in> set (concat a)" by auto
  ultimately show ?thesis by simp
qed

text \<open>
  The loop, run over any list of non-zero labels, zeroes exactly the pixels whose label
  is in the list and in the last row of the mask the loop started from.
\<close>

lemma foldl_remove_step:
  assumes "m \<noteq> []" and "0 \<notin> set ks"
  shows "foldl remove_step m ks =
         map (map (\<lambda>v. if v \<in> set ks \<and> v \<in> set (last m) then 0 else v)) m"
  using assms(2)
proof (induction ks rule: rev_induct)
  case Nil
  show ?case by (simp add: map_idI)
next
  case (snoc k ks)
  let ?g = "\<lambda>v. if v \<in> set ks \<and> v \<in> set (last m) then 0 else v"
  let ?M = "map (map ?g) m"
  from snoc have ih: "foldl remove_step m ks = ?M" and k0: "k \<noteq> 0" by auto
  have lastM: "last ?M = map ?g (last m)"
    using assms(1) by (simp add: last_map)
  have mem: "k \<in> set (last ?M) \<longleftrightarrow> k \<in> set (last m) \<and> k \<notin> set ks"
    unfolding lastM using k0 by auto
  show ?case
  proof (cases "k \<in> set (last ?M)")
    case True
    with mem have kl: "k \<in> set (last m)" and kn: "k \<notin> set ks" by simp_all
    have "remove_step ?M k = map (map (\<lambda>v. if ?g v = k then 0 else ?g v)) m"
      using True by (simp add: remove_step_def zero_label_def comp_def)
    also have "\<dots> = map (map (\<lambda>v. if v \<in> set (ks @ [k]) \<and> v \<in> set (last m) then 0 else v)) m"
      using kl k0 by (intro map_cong refl) auto
    finally show ?thesis by (simp only: foldl_append foldl.simps ih)
  next
    case False
    then have "remove_step ?M k = ?M" by (simp add: remove_step_def)
    also have "?M = map (map (\<lambda>v. if v \<in> set (ks @ [k]) \<and> v \<in> set (last m) then 0 else v)) m"
      using False mem by (intro map_cong refl) auto
    finally show ?thesis by (simp only: foldl_append foldl.simps ih)
  qed
qed

lemma remove_bottom_edge_closed_form:
  assumes "remove_bottom_edge m = Inr m'"
  shows "m' = map (map (\<lambda>v. if 0 < v \<and> v \<in> set (last m) then 0 else v)) m"
proof -
  from assms obtain mx where mx: "np_max m = Inr mx" and m': "m' = foldl remove_step m [1..mx]"
    by (auto simp: remove_bottom_edge_def split: sum.splits)
  from mx have ne: "m \<noteq> []" by (auto dest: np_max_Inr)
  have "m' = map (map (\<lambda>v. if v \<in> set [1..mx] \<and> v \<in> set (last m) then 0 else v)) m"
    unfolding m' by (rule foldl_remove_step [OF ne]) simp
  also have "\<dots> = map (map (\<lambda>v. if 0 < v \<and> v \<in> set (last m) then 0 else v)) m"
  proof (intro map_cong refl)
    fix r v assume "r \<in> set m" "v \<in> set r"
    then have "v \<le> mx" using mx by (rule np_max_upper [rotated])
    then show "(if v \<in> set [1..mx] \<and> v \<in> set (last m) then 0 else v) =
               (if 0 < v \<and> v \<in> set (last m) then 0 else v)"
      by auto
  qed
  finally show ?thesis .
qed

lemma remove_bottom_edge_total:
  "concat m \<noteq> [] \<Longrightarrow> \<exists>m'. remove_bottom_edge m = Inr m'"
proof -
  assume "concat m \<noteq> []"
  then obtain mx where "np_max m = Inr mx" using np_max_total by blast
  then show ?thesis by (simp add: remove_bottom_edge_def)
qed

lemma remove_bottom_edge_nonempty:
  assumes "remove_bottom_edge m = Inr m'"
  shows "concat m' \<noteq> []"
proof -
  from assms have "concat m \<noteq> []"
    by (auto simp: remove_bottom_edge_def dest: np_max_Inr split: sum.splits)
  then obtain r where "r \<in> set m" "r \<noteq> []" by auto
  then show ?thesis
    unfolding remove_bottom_edge_closed_form [OF assms] by auto
qed

text \<open>
  Claim C4. On every mask with at least one pixel the bottom-edge filter returns a mask
  of the same shape in which no positive label of the input's last row occurs any more:
  each pixel carrying such a label is zero, and each pixel whose label is absent from
  the last row keeps its value.
\<close>

theorem remove_bottom_edge_removes_bottom_labels:
  assumes "concat m \<noteq> []"
  shows "\<exists>m'. remove_bottom_edge m = Inr m' \<and> map length m' = map length m \<and>
     (\<forall>k. 0 < k \<and> k \<in> set (last m) \<longrightarrow> k \<notin> set (concat m')) \<and>
     (\<forall>i j. i < length m \<and> j < length (m ! i) \<and> m ! i ! j \<notin> set (last m)
         \<longrightarrow> m' ! i ! j = m ! i ! j) \<and>
     (\<forall>i j. i < length m \<and> j < length (m ! i) \<and> 0 < m ! i ! j \<and> m ! i ! j \<in> set (last m)
         \<longrightarrow> m' ! i ! j = 0)"
proof -
  from remove_bottom_edge_total [OF assms] obtain m' where r: "remove_bottom_edge m = Inr m'"
    by blast
  let ?g = "\<lambda>v. if 0 < v \<and> v \<in> set (last m) then 0 else v"
  have cf: "m' = map (map ?g) m" by (rule remove_bottom_edge_closed_form [OF r])
  have shape: "map length m' = map length m" unfolding cf by (simp add: comp_def)
  have gone: "\<forall>k. 0 < k \<and> k \<in> set (last m) \<longrightarrow> k \<notin> set (concat m')"
    unfolding cf by auto
  have kept: "\<forall>i j. i < length m \<and> j < length (m ! i) \<and> m ! i ! j \<notin> set (last m)
         \<longrightarrow> m' ! i ! j = m ! i ! j"
    unfolding cf by simp
  have zeroed: "\<forall>i j. i < length m \<and> j < length (m ! i) \<and> 0 < m ! i ! j \<and> m ! i ! j \<in> set (last m)
         \<longrightarrow> m' ! i ! j = 0"
    unfolding cf by simp
  from r shape gone kept zeroed show ?thesis by blast
qed

theorem remove_bottom_edge_removes_bottom_labels_witness:
  "concat [[1, 2, 0], [0, 2, 3 :: int]] \<noteq> [] \<and>
   remove_bottom_edge [[1, 2, 0], [0, 2, 3]] = Inr [[1, 0, 0], [0, 0, 0]]"
  using remove_bottom_edge_removes_bottom_labels [of "[[1, 2, 0], [0, 2, 3]]"]
  by (simp add: remove_bottom_edge_def np_max_def remove_step_def zero_label_def upto_rec1)

text \<open>
  Claim C9. The bottom-edge filter is idempotent: running it on its own result gives
  that result again (and an empty mask, on which numpy's maximum raises, fails both
  times with the same error).
\<close>

theorem remove_bottom_edge_idempotent:
  "bind_e (remove_bottom_edge m) remove_bottom_edge = remove_bottom_edge m"
proof (cases "remove_bottom_edge m")
  case (Inl e)
  then show ?thesis by (simp add: bind_e_def)
next
  case (Inr m1)
  have ne: "concat m1 \<noteq> []" by (rule remove_bottom_edge_nonempty [OF Inr])
  then obtain m2 where r2: "remove_bottom_edge m1 = Inr m2"
    using remove_bottom_edge_total by blast
  from Inr have mne: "m \<noteq> []"
    by (auto simp: remove_bottom_edge_def dest: np_max_Inr split: sum.splits)
  let ?g = "\<lambda>v. if 0 < v \<and> v \<in> set (last m) then 0 else v"
  have m1: "m1 = map (map ?g) m" by (rule remove_bottom_edge_closed_form [OF Inr])
  have last1: "last m1 = map ?g (last m)" unfolding m1 using mne by (simp add: last_map)
  have clean: "\<not> (0 < v \<and> v \<in> set (last m1))" for v
    unfolding last1 by auto
  have "m2 = map (map (\<lambda>v. if 0 < v \<and> v \<in> set (last m1) then 0 else v)) m1"
    by (rule remove_bottom_edge_closed_form [OF r2])
  also have "\<dots> = map (map (\<lambda>v. v)) m1"
    using clean by (intro map_cong refl) auto
  finally have "m2 = m1" by simp
  with Inr r2 show ?thesis by (simp add: bind_e_def)
qed


theorem remove_bottom_edge_idempotent_witness:
  "bind_e (remove_bottom_edge [[1, 2, 0], [0, 2, 3]]) remove_bottom_edge
     = Inr [[1, 0, 0], [0, 0, 0]]"
  using remove_bottom_edge_idempotent [of "[[1, 2, 0], [0, 2, 3]]"]
  by (simp add: remove_bottom_edge_def np_max_def remove_step_def zero_label_def upto_rec1)

section \<open>Properties of the cluster canonicalization\<close>

lemma swap_labels_01: "set labels \<subseteq> {0, 1} \<Longrightarrow> swap_labels labels = map (\<lambda>l. 1 - l) labels"
  by (auto simp: swap_labels_def)

lemma which_is_more_green_cases:
  assumes "which_is_more_green rgb labels = Inr labels'"
  shows "labels' = labels \<or> labels' = swap_labels labels"
  using assms
  by (auto simp: which_is_more_green_def bind_e_def Let_def split: sum.splits if_splits)

lemma which_is_more_green_total:
  assumes "set labels \<subseteq> {0, 1}" and "length labels = length rgb" and "2 \<le> length rgb"
  shows "\<exists>labels'. which_is_more_green rgb labels = Inr labels'"
proof -
  let ?g = "map (\<lambda>(r, g, b). g) rgb"
  have "\<exists>g0. bool_index ?g (map (\<lambda>i. i = 0) labels) = Inr g0"
    using assms(2) by (simp add: bool_index_def)
  moreover have "list_all (\<lambda>n. n < length ?g) labels"
    using assms(1,3) by (auto simp: list_all_iff)
  then have "\<exists>g1. int_index ?g labels = Inr g1" by (simp add: int_index_def)
  ultimately show ?thesis
    by (auto simp: which_is_more_green_def bind_e_def Let_def)
qed

text \<open>
  Claim C10. On labels drawn from 0 and 1, one per row of at least two rows,
  \<open>which_is_more_green\<close> returns; and whenever it returns, the labels it returns are the
  input labels or their pointwise complement, so two rows have the same label
  afterwards exactly when they had the same label before.
\<close>

theorem which_is_more_green_keeps_partition:
  assumes "set labels \<subseteq> {0, 1}"
  shows "(length labels = length rgb \<and> 2 \<le> length rgb \<longrightarrow>
            (\<exists>labels'. which_is_more_green rgb labels = Inr labels')) \<and>
         (\<forall>labels'. which_is_more_green rgb labels = Inr labels' \<longrightarrow>
            (labels' = labels \<or> labels' = map (\<lambda>l. 1 - l) labels) \<and>
            (\<forall>i j. i < length labels \<and> j < length labels \<longrightarrow>
               (labels' ! i = labels' ! j \<longleftrightarrow> labels ! i = labels ! j)))"
proof (intro conjI impI allI)
  assume "length labels = length rgb \<and> 2 \<le> length rgb"
  with assms show "\<exists>labels'. which_is_more_green rgb labels = Inr labels'"
    by (intro which_is_more_green_total) simp_all
next
  fix labels' assume r: "which_is_more_green rgb labels = Inr labels'"
  from which_is_more_green_cases [OF r] swap_labels_01 [OF assms]
  show c: "labels' = labels \<or> labels' = map (\<lambda>l. 1 - l) labels" by auto
  fix i j assume "i < length labels \<and> j < length labels"
  then have ij: "i < length labels" "j < length labels" by simp_all
  with assms have "labels ! i \<in> {0, 1}" "labels ! j \<in> {0, 1}"
    using nth_mem by blast+
  then have "(1 - labels ! i = 1 - labels ! j) \<longleftrightarrow> (labels ! i = labels ! j)" by auto
  with c ij show "labels' ! i = labels' ! j \<longleftrightarrow> labels ! i = labels ! j" by auto
qed

theorem which_is_more_green_keeps_partition_witness:
  "set [0, 1 :: nat] \<subseteq> {0, 1} \<and>
   which_is_more_green [(Fin 0, Fin 1, Fin 0), (Fin 0, Fin 5, Fin 0)] [0, 1] = Inr [1, 0] \<and>
   [1, 0] = map (\<lambda>l. 1 - l) [0, 1 :: nat]"
proof -
  let ?rgb = "[(Fin 0, Fin 1, Fin 0), (Fin 0, Fin 5, Fin 0)]"
  have h: "set [0, 1 :: nat] \<subseteq> {0, 1}" by simp
  from which_is_more_green_keeps_partition [OF h, of ?rgb]
  obtain labels' where r: "which_is_more_green ?rgb [0, 1] = Inr labels'"
    and c: "labels' = [0, 1] \<or> labels' = map (\<lambda>l. 1 - l) [0, 1]"
    by auto
  have e: "which_is_more_green ?rgb [0, 1] = Inr [1, 0]"
    by (simp add: which_is_more_green_def bind_e_def bool_index_def int_index_def np_mean_def
        np_div_def float_less_def swap_labels_def)
  with r have "labels' = [1, 0]" by simp
  with c have "[1, 0] = map (\<lambda>l. 1 - l) [0, 1 :: nat]" by auto
  with h e show ?thesis by simp
qed

text \<open>
  Claim C1 fails on the code. The second mean indexes the green column with the integer
  label array, so it averages the green values of rows 0 and 1, once per label, and not
  the green values of the rows labelled 1. On four rows with green values 2, 4, 10, 10
  and labels 0, 0, 1, 1 both computed means are 3, nothing is swapped, and group 0 stays
  the group of mean 3 although group 1 has mean 10.
\<close>

theorem which_is_more_green_wrong_group:
  "which_is_more_green
     [(Fin 0, Fin 2, Fin 0), (Fin 0, Fin 4, Fin 0), (Fin 0, Fin 10, Fin 0), (Fin 0, Fin 10, Fin 0)]
     [0, 0, 1, 1] = Inr [0, 0, 1, 1] \<and>
   group_green_mean
     [(Fin 0, Fin 2, Fin 0), (Fin 0, Fin 4, Fin 0), (Fin 0, Fin 10, Fin 0), (Fin 0, Fin 10, Fin 0)]
     [0, 0, 1, 1] 0 = Fin 3 \<and>
   group_green_mean
     [(Fin 0, Fin 2, Fin 0), (Fin 0, Fin 4, Fin 0), (Fin 0, Fin 10, Fin 0), (Fin 0, Fin 10, Fin 0)]
     [0, 0, 1, 1] 1 = Fin 10"
  by (simp add: which_is_more_green_def bind_e_def bool_index_def int_index_def np_mean_def
      np_div_def float_less_def swap_labels_def group_green_mean_def)

section \<open>Properties of the edge cropper\<close>














section \<open>Alignment of centres and intensities\<close>

lemma set_pixel_index: "set (pixel_index a) = {(i, j). i < length a \<and> j < length (a ! i)}"
  by (auto simp: pixel_index_def)

lemma labelled_pixels_label: "(i, j) \<in> set (labelled_pixels m l) \<Longrightarrow> m ! i ! j = l"
  by (simp add: labelled_pixels_def)

lemma labelled_pixels_empty: "labelled_pixels m l = [] \<longleftrightarrow> l \<notin> set (concat m)"
proof -
  have "l \<in> set (concat m) \<longleftrightarrow> (\<exists>i<length m. \<exists>j<length (m ! i). m ! i ! j = l)"
  proof
    assume "l \<in> set (concat m)"
    then obtain r where "r \<in> set m" "l \<in> set r" by auto
    then obtain i j where "i < length m" "m ! i = r" "j < length r" "r ! j = l"
      by (metis in_set_conv_nth)
    then show "\<exists>i<length m. \<exists>j<length (m ! i). m ! i ! j = l" by auto
  next
    assume "\<exists>i<length m. \<exists>j<length (m ! i). m ! i ! j = l"
    then obtain i j where "i < length m" "j < length (m ! i)" "m ! i ! j = l" by blast
    then have "m ! i \<in> set m" "l \<in> set (m ! i)" using nth_mem by blast+
    then show "l \<in> set (concat m)" by auto
  qed
  moreover have "labelled_pixels m l = [] \<longleftrightarrow> \<not> (\<exists>i<length m. \<exists>j<length (m ! i). m ! i ! j = l)"
    by (auto simp: labelled_pixels_def filter_empty_conv set_pixel_index)
  ultimately show ?thesis by simp
qed

lemma normalizer_of_label:
  "sum_list (map (\<lambda>(i, j). (of_int (m ! i ! j) :: rat)) (labelled_pixels m l))
     = of_int l * of_nat (length (labelled_pixels m l))"
proof -
  have "map (\<lambda>(i, j). (of_int (m ! i ! j) :: rat)) (labelled_pixels m l)
          = map (\<lambda>p. of_int l) (labelled_pixels m l)"
    by (rule map_cong [OF refl]) (auto dest: labelled_pixels_label)
  then have "sum_list (map (\<lambda>(i, j). (of_int (m ! i ! j) :: rat)) (labelled_pixels m l))
          = sum_list (map (\<lambda>p. of_int l) (labelled_pixels m l))"
    by (simp only:)
  also have "\<dots> = of_int l * of_nat (length (labelled_pixels m l))"
    by (simp add: sum_list_triv)
  finally show ?thesis .
qed

lemma center_of_mass_nan:
  assumes "l \<noteq> 0"
  shows "fst (center_of_mass m m l) = NaN \<longleftrightarrow> l \<notin> set (concat m)"
proof (cases "labelled_pixels m l = []")
  case True
  then show ?thesis
    using labelled_pixels_empty [of m l] by (simp add: center_of_mass_def np_div_def)
next
  case False
  then have "of_int l * (of_nat (length (labelled_pixels m l)) :: rat) \<noteq> 0"
    using assms by simp
  then show ?thesis
    using False labelled_pixels_empty [of m l]
    by (simp add: center_of_mass_def Let_def normalizer_of_label np_div_def)
qed

lemma find_centers_filter:
  assumes "np_max m = Inr mx"
  shows "find_centers m
           = Inr (map (center_of_mass m m) (filter (\<lambda>l. l \<in> set (concat m)) [1..mx]))"
proof -
  have "filter (\<lambda>x. fst x \<noteq> NaN) (map (center_of_mass m m) [1..mx])
          = map (center_of_mass m m) (filter (\<lambda>l. fst (center_of_mass m m l) \<noteq> NaN) [1..mx])"
    by (simp add: filter_map comp_def)
  also have "filter (\<lambda>l. fst (center_of_mass m m l) \<noteq> NaN) [1..mx]
          = filter (\<lambda>l. l \<in> set (concat m)) [1..mx]"
    by (rule filter_cong [OF refl]) (simp add: center_of_mass_nan)
  finally show ?thesis using assms by (simp add: find_centers_def)
qed

lemma object_means_total:
  assumes "map length img = map length m"
  shows "\<exists>t. object_means img m l = Inr t"
proof -
  have "map length (map (map f) img) = map length m" for f :: "nat \<times> nat \<times> nat \<Rightarrow> nat"
    using assms by (simp add: comp_def)
  then show ?thesis
    by (simp add: object_means_def select_mask_def bind_e_def comp_def assms)
qed

lemma mean_intensity_loop_filter:
  assumes "map length img = map length m"
  shows "\<exists>ts. mean_intensity_loop img m ls out = Inr (out @ ts) \<and>
              map Inr ts = map (object_means img m) (filter (\<lambda>l. l \<in> set (concat m)) ls)"
proof (induction ls arbitrary: out)
  case Nil
  show ?case by simp
next
  case (Cons l ls)
  show ?case
  proof (cases "l \<in> set (concat m)")
    case True
    from object_means_total [OF assms] obtain t where t: "object_means img m l = Inr t"
      by blast
    from Cons [of "out @ [t]"] obtain ts where
      "mean_intensity_loop img m ls (out @ [t]) = Inr ((out @ [t]) @ ts)"
      "map Inr ts = map (object_means img m) (filter (\<lambda>l. l \<in> set (concat m)) ls)"
      by blast
    then have "mean_intensity_loop img m (l # ls) out = Inr (out @ (t # ts)) \<and>
               map Inr (t # ts) = map (object_means img m) (filter (\<lambda>l. l \<in> set (concat m)) (l # ls))"
      using True t by simp
    then show ?thesis by blast
  next
    case False
    with Cons [of out] show ?thesis by simp
  qed
qed

lemma surviving_labels_filter:
  assumes "np_max m = Inr mx"
  shows "filter (\<lambda>l. l \<in> set (concat m)) [1..mx] = surviving_labels m"
proof -
  let ?S = "Set.filter (\<lambda>l. 0 < l) (set (concat m))"
  have up: "v \<le> mx" if "v \<in> set (concat m)" for v
    using that np_max_upper [OF assms] by auto
  have "set (filter (\<lambda>l. l \<in> set (concat m)) [1..mx]) = ?S"
    using up by auto
  moreover have "sorted (filter (\<lambda>l. l \<in> set (concat m)) [1..mx])"
    by (simp add: sorted_wrt_filter)
  moreover have "distinct (filter (\<lambda>l. l \<in> set (concat m)) [1..mx])"
    by simp
  moreover have "finite ?S" by simp
  ultimately show ?thesis
    unfolding surviving_labels_def
    by (metis sorted_list_of_set.idem_if_sorted_distinct)
qed

text \<open>
  Claim C2. On a mask with at least one pixel and an image of the mask's shape both
  functions return, and both walk the same list of labels: the positive labels that
  still have a pixel, in ascending order. The centroid at a position is the centre of
  mass of the label at that position, the triple at a position the channel means of
  that same label, so the two sequences have equal length and correspond position by
  position.
\<close>

theorem centers_and_intensities_aligned:
  assumes "concat m \<noteq> []" and "map length img = map length m"
  shows "\<exists>cs ts. find_centers m = Inr cs \<and> mean_intensity img m = Inr ts \<and>
           length cs = length ts \<and>
           cs = map (center_of_mass m m) (surviving_labels m) \<and>
           map Inr ts = map (object_means img m) (surviving_labels m) \<and>
           sorted_wrt (<) (surviving_labels m) \<and>
           set (surviving_labels m) = {l. 0 < l \<and> l \<in> set (concat m)}"
proof -
  from np_max_total [OF assms(1)] obtain mx where mx: "np_max m = Inr mx" by blast
  note sl = surviving_labels_filter [OF mx]
  have c: "find_centers m = Inr (map (center_of_mass m m) (surviving_labels m))"
    using find_centers_filter [OF mx] by (simp only: sl)
  from mean_intensity_loop_filter [OF assms(2), of "[1..mx]" "[]"] obtain ts
    where a: "mean_intensity_loop img m [1..mx] [] = Inr ([] @ ts)"
      and b: "map Inr ts = map (object_means img m) (filter (\<lambda>l. l \<in> set (concat m)) [1..mx])"
    by blast
  from a have i: "mean_intensity img m = Inr ts" by (simp add: mean_intensity_def mx)
  from b have t: "map Inr ts = map (object_means img m) (surviving_labels m)"
    unfolding sl .
  from t have "length ts = length (surviving_labels m)" by (rule map_eq_imp_length_eq)
  then have n: "length (map (center_of_mass m m) (surviving_labels m)) = length ts" by simp
  have s: "sorted_wrt (<) (surviving_labels m)"
    by (simp add: surviving_labels_def strict_sorted_iff)
  have e: "set (surviving_labels m) = {l. 0 < l \<and> l \<in> set (concat m)}"
    by (auto simp: surviving_labels_def)
  from c i n t s e show ?thesis by blast
qed

theorem centers_and_intensities_aligned_witness:
  "concat [[1, 0], [3, 3 :: int]] \<noteq> [] \<and>
   find_centers [[1, 0], [3, 3]] = Inr [(Fin 0, Fin 0), (Fin 1, Fin (1 / 2))] \<and>
   mean_intensity [[(10, 20, 30), (0, 0, 0)], [(1, 2, 3), (3, 4, 5)]] [[1, 0], [3, 3]]
     = Inr [(Fin 10, Fin 20, Fin 30), (Fin 2, Fin 3, Fin 4)]"
proof -
  let ?m = "[[1, 0], [3, 3 :: int]]"
  let ?img = "[[(10, 20, 30), (0, 0, 0)], [(1, 2, 3), (3, 4, 5 :: nat)]]"
  have h: "concat ?m \<noteq> []" "map length ?img = map length ?m" by simp_all
  from centers_and_intensities_aligned [OF h] obtain cs ts where
    r: "find_centers ?m = Inr cs" "mean_intensity ?img ?m = Inr ts"
    and c: "cs = map (center_of_mass ?m ?m) (surviving_labels ?m)"
    and t: "map Inr ts = map (object_means ?img ?m) (surviving_labels ?m)"
    by blast
  have "map (center_of_mass ?m ?m) (surviving_labels ?m) = [(Fin 0, Fin 0), (Fin 1, Fin (1 / 2))]"
    by code_simp
  with c have cs: "cs = [(Fin 0, Fin 0), (Fin 1, Fin (1 / 2))]" by simp
  have "map (object_means ?img ?m) (surviving_labels ?m)
          = map Inr [(Fin 10, Fin 20, Fin 30), (Fin 2, Fin 3, Fin 4)]"
    by code_simp
  with t have "map Inr ts = (map Inr [(Fin 10, Fin 20, Fin 30), (Fin 2, Fin 3, Fin 4)]
                 :: (error + rgb) list)"
    by simp
  then have ts: "ts = [(Fin 10, Fin 20, Fin 30), (Fin 2, Fin 3, Fin 4)]"
    by (auto simp: map_eq_Cons_conv)
  from h(1) r cs ts show ?thesis by simp
qed

section \<open>Properties of the pipeline\<close>

lemma stages_ignore_kmeans:
  "filter_regional_maxima (L\<lparr>kmeans_fit := fit\<rparr>) img h = filter_regional_maxima L img h"
  "region_based_segmentation (L\<lparr>kmeans_fit := fit\<rparr>) hdome wl wh = region_based_segmentation L hdome wl wh"
  by (simp_all add: filter_regional_maxima_def region_based_segmentation_def)

lemma find_centers_total:
  "concat m \<noteq> [] \<Longrightarrow> \<exists>cs. find_centers m = Inr cs"
  using np_max_total [of m] by (auto simp: find_centers_def)

text \<open>
  Claim C5. When the stages before the classifier return and the intensity summary has
  no row, \<open>count_kernels\<close> returns \<open>[0, 0]\<close> and the loop body reads the pair \<open>(0, 0)\<close>
  from it, whatever the clustering function is: it is never called, so even one that
  always raises changes nothing.
\<close>

theorem count_kernels_no_objects:
  assumes "filter_regional_maxima L (crop_edges raw p) h = Inr hdome"
    and "region_based_segmentation L hdome wl wh = Inr labeled"
    and "remove_bottom_edge labeled = Inr segs"
    and "mean_intensity (crop_edges raw p) segs = Inr []"
  shows "count_kernels (L\<lparr>kmeans_fit := fit\<rparr>) raw p h wl wh = Inr [0, 0] \<and>
         kernel_counts (L\<lparr>kmeans_fit := fit\<rparr>)
           \<lparr>image_crop_percentage = p, h_dome_value = h,
            watershed_low = wl, watershed_high = wh\<rparr> raw = Inr (0, 0)"
proof -
  from remove_bottom_edge_nonempty [OF assms(3)] obtain cs where cs: "find_centers segs = Inr cs"
    using find_centers_total by blast
  have c: "count_kernels (L\<lparr>kmeans_fit := fit\<rparr>) raw p h wl wh = Inr [0, 0]"
    unfolding count_kernels_def Let_def stages_ignore_kmeans
    by (simp add: assms cs bind_e_def)
  then show ?thesis by (simp add: kernel_counts_def bind_e_def py_index_def)
qed

theorem count_kernels_no_objects_witness:
  "count_kernels ((stub_lib [[0], [0]] (\<lambda>rgb. Inr []))\<lparr>kmeans_fit := (\<lambda>rgb. Inl ValueError)\<rparr>)
     [[(1, 2, 3)], [(4, 5, 6)]] 0 (3 / 10) 20 80 = Inr [0, 0]"
proof -
  let ?L = "stub_lib [[0], [0]] (\<lambda>rgb. Inr [])"
  let ?raw = "[[(1, 2, 3)], [(4, 5, 6)]] :: image"
  have c: "crop_edges ?raw 0 = ?raw" by code_simp
  have 1: "filter_regional_maxima ?L (crop_edges ?raw 0) (3 / 10) = Inr [[3 / 10], [3 / 10]]"
    unfolding c by code_simp
  have 2: "region_based_segmentation ?L [[3 / 10], [3 / 10]] 20 80 = Inr [[0], [0]]"
    by code_simp
  have 3: "remove_bottom_edge [[0], [0]] = Inr [[0], [0]]" by code_simp
  have 4: "mean_intensity (crop_edges ?raw 0) [[0], [0]] = Inr []"
    unfolding c by code_simp
  from count_kernels_no_objects [OF 1 2 3 4, of "\<lambda>rgb. Inl ValueError"]
  show ?thesis by simp
qed

lemma float_less_irrefl: "\<not> float_less a a"
  by (cases a) (simp_all add: float_less_def)

lemma which_is_more_green_single:
  assumes "which_is_more_green [t] labels = Inr labels'"
  shows "labels' = [] \<or> labels' = [0]"
proof -
  obtain r g b where t: "t = (r, g, b)" by (cases t)
  from assms obtain g0 g1 where
    b: "bool_index [g] (map (\<lambda>i. i = 0) labels) = Inr g0"
    and i: "int_index [g] labels = Inr g1"
    and l: "labels' = (if float_less (np_mean g0) (np_mean g1) then swap_labels labels else labels)"
    by (auto simp: which_is_more_green_def t bind_e_def Let_def split: sum.splits if_splits)
  from i have zero: "\<forall>n\<in>set labels. n = 0"
    by (auto simp: int_index_def list_all_iff split: if_splits)
  from b have "labels = [] \<or> length labels = 1"
    by (auto simp: bool_index_def split: if_splits)
  then show ?thesis
  proof
    assume "labels = []"
    with l show ?thesis by (simp add: swap_labels_def)
  next
    assume "length labels = 1"
    then obtain n where "labels = [n]" by (cases labels) auto
    with zero have n: "labels = [0]" by simp
    with b i have "g0 = [g]" "g1 = [g]" by (auto simp: bool_index_def int_index_def)
    with l n show ?thesis by (simp add: float_less_irrefl)
  qed
qed

text \<open>
  Claim C8 fails on the code. With exactly one row in the intensity summary the check
  for an empty summary does not apply; whatever the clustering does with the single
  row, \<open>count_kernels\<close> raises or returns the one-element count \<open>[1]\<close>, and reading
  \<^verbatim>\<open>count_kernels_output[1]\<close> in the loop then raises. No pair of counts is produced.
\<close>

theorem single_object_not_counted:
  assumes "filter_regional_maxima L (crop_edges raw p) h = Inr hdome"
    and "region_based_segmentation L hdome wl wh = Inr labeled"
    and "remove_bottom_edge labeled = Inr segs"
    and "mean_intensity (crop_edges raw p) segs = Inr [t]"
  shows "((\<exists>e. count_kernels L raw p h wl wh = Inl e) \<or> count_kernels L raw p h wl wh = Inr [1]) \<and>
         (\<exists>e. kernel_counts L
                 \<lparr>image_crop_percentage = p, h_dome_value = h,
                  watershed_low = wl, watershed_high = wh\<rparr> raw = Inl e)"
proof -
  from remove_bottom_edge_nonempty [OF assms(3)] obtain cs where cs: "find_centers segs = Inr cs"
    using find_centers_total by blast
  let ?tail = "bind_e (kmeans_from_rgb L [t]) (\<lambda>kmeans.
                 bind_e (which_is_more_green [t] kmeans) (\<lambda>labels.
                   if cs = [] \<or> length cs \<noteq> length labels then Inl ValueError
                   else Inr (np_unique_counts labels)))"
  have ck: "count_kernels L raw p h wl wh = ?tail"
    unfolding count_kernels_def Let_def by (simp add: assms cs bind_e_def)
  have tail: "(\<exists>e. ?tail = Inl e) \<or> ?tail = Inr [1]"
  proof (cases "kmeans_from_rgb L [t]")
    case (Inl e)
    then show ?thesis by (simp add: bind_e_def)
  next
    case (Inr kmeans)
    show ?thesis
    proof (cases "which_is_more_green [t] kmeans")
      case (Inl e)
      with Inr show ?thesis by (simp add: bind_e_def)
    next
      case inner: (Inr labels)
      from which_is_more_green_single [OF inner] have "labels = [] \<or> labels = [0]" .
      then show ?thesis
      proof
        assume "labels = []"
        with Inr inner show ?thesis by (simp add: bind_e_def)
      next
        assume "labels = [0]"
        with Inr inner show ?thesis by (simp add: bind_e_def np_unique_counts_def)
      qed
    qed
  qed
  with ck have c: "(\<exists>e. count_kernels L raw p h wl wh = Inl e) \<or> count_kernels L raw p h wl wh = Inr [1]"
    by simp
  then have "\<exists>e. kernel_counts L
                 \<lparr>image_crop_percentage = p, h_dome_value = h,
                  watershed_low = wl, watershed_high = wh\<rparr> raw = Inl e"
    by (auto simp: kernel_counts_def bind_e_def py_index_def)
  with c show ?thesis by blast
qed

theorem single_object_not_counted_witness:
  "mean_intensity [[(1, 2, 3)], [(4, 5, 6)]] [[1], [0]] = Inr [(Fin 1, Fin 2, Fin 3)] \<and>
   (\<exists>e. kernel_counts (stub_lib [[1], [0]] (\<lambda>rgb. Inr (map (\<lambda>t. 0) rgb)))
           \<lparr>image_crop_percentage = 0, h_dome_value = 3 / 10,
            watershed_low = 20, watershed_high = 80\<rparr> [[(1, 2, 3)], [(4, 5, 6)]] = Inl e)"
proof -
  let ?L = "stub_lib [[1], [0]] (\<lambda>rgb. Inr (map (\<lambda>t. 0) rgb))"
  let ?raw = "[[(1, 2, 3)], [(4, 5, 6)]] :: image"
  have c: "crop_edges ?raw 0 = ?raw" by code_simp
  have 1: "filter_regional_maxima ?L (crop_edges ?raw 0) (3 / 10) = Inr [[3 / 10], [3 / 10]]"
    unfolding c by code_simp
  have 2: "region_based_segmentation ?L [[3 / 10], [3 / 10]] 20 80 = Inr [[1], [0]]"
    by code_simp
  have 3: "remove_bottom_edge [[1], [0]] = Inr [[1], [0]]" by code_simp
  have 4: "mean_intensity ?raw [[1], [0]] = Inr [(Fin 1, Fin 2, Fin 3)]"
    by code_simp
  from 4 have 5: "mean_intensity (crop_edges ?raw 0) [[1], [0]] = Inr [(Fin 1, Fin 2, Fin 3)]"
    unfolding c .
  from single_object_not_counted [OF 1 2 3 5] 4
  show ?thesis by blast
qed

section \<open>Parameters out of range\<close>







section \<open>Properties of the regional maxima filter\<close>

lemma fold_max_ge: "(a::rat) \<le> fold max xs a"
  by (induction xs arbitrary: a) (auto intro: order_trans [OF max.cobounded2])

lemma fold_max_in: "fold max xs (a::rat) \<in> insert a (set xs)"
proof (induction xs arbitrary: a)
  case Nil
  show ?case by simp
next
  case (Cons x xs)
  from Cons [of "max x a"] show ?case by (auto simp: max_def split: if_splits)
qed

lemma neighbourhood_subset:
  "set (neighbourhood r i j) \<subseteq> (\<lambda>(i, j). r ! i ! j) ` set (pixel_index r)"
  by (auto simp: neighbourhood_def set_pixel_index image_iff)

lemma geodesic_dilation_shape:
  "length (geodesic_dilation msk r) = length r"
  "i < length r \<Longrightarrow> length (geodesic_dilation msk r ! i) = length (r ! i)"
  by (simp_all add: geodesic_dilation_def)

lemma geodesic_dilation_nth:
  "i < length r \<Longrightarrow> j < length (r ! i) \<Longrightarrow>
   geodesic_dilation msk r ! i ! j = min (fold max (neighbourhood r i j) (r ! i ! j)) (msk ! i ! j)"
  by (simp add: geodesic_dilation_def)

lemma geodesic_dilation_map_length:
  "map length (geodesic_dilation msk r) = map length r"
  by (rule nth_equalityI) (simp_all add: geodesic_dilation_shape)

lemma pixel_index_cong: "map length a = map length b \<Longrightarrow> pixel_index a = pixel_index b"
proof -
  assume e: "map length a = map length b"
  then have l: "length a = length b" by (rule map_eq_imp_length_eq)
  have "length (a ! i) = length (b ! i)" if "i < length a" for i
    using that e l by (metis nth_map)
  then show ?thesis unfolding pixel_index_def l [symmetric]
    by (intro arg_cong [where f = concat] map_cong refl) auto
qed

lemma pixel_index_dilation: "pixel_index (geodesic_dilation msk r) = pixel_index r"
  by (rule pixel_index_cong) (rule geodesic_dilation_map_length)

lemma below_dilation: "below msk (geodesic_dilation msk r)"
  unfolding below_def pixel_index_dilation
  by (auto simp: list_all_iff set_pixel_index geodesic_dilation_nth)

lemma dilation_ge:
  assumes "below msk r" and "(i, j) \<in> set (pixel_index r)"
  shows "r ! i ! j \<le> geodesic_dilation msk r ! i ! j"
proof -
  from assms(2) have ij: "i < length r" "j < length (r ! i)" by (auto simp: set_pixel_index)
  from assms have "r ! i ! j \<le> msk ! i ! j" by (auto simp: below_def list_all_iff)
  moreover have "r ! i ! j \<le> fold max (neighbourhood r i j) (r ! i ! j)" by (rule fold_max_ge)
  ultimately show ?thesis by (simp add: geodesic_dilation_nth ij)
qed

lemma dilation_in_level_set:
  assumes "(i, j) \<in> set (pixel_index r)"
  shows "geodesic_dilation msk r ! i ! j \<in> level_set msk r"
proof -
  from assms have ij: "i < length r" "j < length (r ! i)" by (auto simp: set_pixel_index)
  let ?m = "fold max (neighbourhood r i j) (r ! i ! j)"
  have "?m \<in> insert (r ! i ! j) (set (neighbourhood r i j))" by (rule fold_max_in)
  moreover have "r ! i ! j \<in> (\<lambda>(i, j). r ! i ! j) ` set (pixel_index r)"
    using assms by (intro image_eqI [where x = "(i, j)"]) simp_all
  ultimately have "?m \<in> level_set msk r"
    using neighbourhood_subset [of r i j] by (auto simp: level_set_def)
  moreover have "msk ! i ! j \<in> (\<lambda>(i, j). msk ! i ! j) ` set (pixel_index r)"
    using assms by (intro image_eqI [where x = "(i, j)"]) simp_all
  then have "msk ! i ! j \<in> level_set msk r" by (simp add: level_set_def)
  ultimately show ?thesis by (simp add: geodesic_dilation_nth ij min_def)
qed

lemma level_set_dilation: "level_set msk (geodesic_dilation msk r) \<subseteq> level_set msk r"
proof
  fix v assume "v \<in> level_set msk (geodesic_dilation msk r)"
  then consider (a) i j where "(i, j) \<in> set (pixel_index r)" "v = geodesic_dilation msk r ! i ! j"
    | (b) i j where "(i, j) \<in> set (pixel_index r)" "v = msk ! i ! j"
    unfolding level_set_def pixel_index_dilation by auto
  then show "v \<in> level_set msk r"
  proof cases
    case a then show ?thesis by (simp add: dilation_in_level_set)
  next
    case b
    then have "v \<in> (\<lambda>(i, j). msk ! i ! j) ` set (pixel_index r)"
      by (intro image_eqI [where x = "(i, j)"]) simp_all
    then show ?thesis by (simp add: level_set_def)
  qed
qed

lemma finite_level_set: "finite (level_set msk r)"
  by (simp add: level_set_def)

lemma dilation_differs:
  assumes "geodesic_dilation msk r \<noteq> r"
  shows "\<exists>(i, j)\<in>set (pixel_index r). geodesic_dilation msk r ! i ! j \<noteq> r ! i ! j"
proof (rule ccontr)
  assume "\<not> ?thesis"
  then have same: "geodesic_dilation msk r ! i ! j = r ! i ! j"
    if "i < length r" "j < length (r ! i)" for i j
    using that by (auto simp: set_pixel_index)
  have "geodesic_dilation msk r = r"
  proof (rule nth_equalityI)
    show "length (geodesic_dilation msk r) = length r" by (rule geodesic_dilation_shape)
  next
    fix i assume "i < length (geodesic_dilation msk r)"
    then have i: "i < length r" by (simp add: geodesic_dilation_shape)
    show "geodesic_dilation msk r ! i = r ! i"
      by (rule nth_equalityI) (simp_all add: geodesic_dilation_shape i same)
  qed
  with assms show False by simp
qed

lemma sum_list_strict:
  fixes a b :: "'a \<Rightarrow> nat"
  assumes "\<forall>p\<in>set ps. a p \<le> b p" and "\<exists>p\<in>set ps. a p < b p"
  shows "sum_list (map a ps) < sum_list (map b ps)"
  using assms
proof (induction ps)
  case Nil
  then show ?case by simp
next
  case (Cons p ps)
  have le: "sum_list (map a ps) \<le> sum_list (map b ps)"
    using Cons.prems(1) by (intro sum_list_mono) simp
  show ?case
  proof (cases "a p < b p")
    case True
    with le show ?thesis by simp
  next
    case False
    with Cons.prems have "\<exists>q\<in>set ps. a q < b q" "a p \<le> b p" by auto
    with Cons.IH Cons.prems(1) show ?thesis by simp
  qed
qed

lemma headroom_decreases:
  assumes "below msk r" and "geodesic_dilation msk r \<noteq> r"
  shows "headroom msk (geodesic_dilation msk r) < headroom msk r"
proof -
  let ?r' = "geodesic_dilation msk r"
  let ?a = "\<lambda>(i, j). card {v \<in> level_set msk ?r'. ?r' ! i ! j < v}"
  let ?b = "\<lambda>(i, j). card {v \<in> level_set msk r. r ! i ! j < v}"
  have sub: "{v \<in> level_set msk ?r'. ?r' ! i ! j < v} \<subseteq> {v \<in> level_set msk r. r ! i ! j < v}"
    if "(i, j) \<in> set (pixel_index r)" for i j
    using level_set_dilation [of msk r] dilation_ge [OF assms(1) that] by auto
  have le: "\<forall>p\<in>set (pixel_index r). ?a p \<le> ?b p"
    using sub by (auto intro!: card_mono simp: finite_level_set)
  from dilation_differs [OF assms(2)] obtain i j where
    ij: "(i, j) \<in> set (pixel_index r)" and ne: "?r' ! i ! j \<noteq> r ! i ! j" by auto
  with dilation_ge [OF assms(1) ij] have lt: "r ! i ! j < ?r' ! i ! j" by simp
  have "?r' ! i ! j \<in> {v \<in> level_set msk r. r ! i ! j < v}"
    using lt dilation_in_level_set [OF ij] by simp
  moreover have "?r' ! i ! j \<notin> {v \<in> level_set msk ?r'. ?r' ! i ! j < v}" by simp
  ultimately have "{v \<in> level_set msk ?r'. ?r' ! i ! j < v} \<subset> {v \<in> level_set msk r. r ! i ! j < v}"
    using sub [OF ij] by blast
  then have "?a (i, j) < ?b (i, j)"
    by (auto intro!: psubset_card_mono simp: finite_level_set)
  with ij have "\<exists>p\<in>set (pixel_index r). ?a p < ?b p" by blast
  with le have "sum_list (map ?a (pixel_index r)) < sum_list (map ?b (pixel_index r))"
    by (rule sum_list_strict)
  then show ?thesis by (simp add: headroom_def pixel_index_dilation)
qed

termination reconstruct_loop
proof (relation "measure (\<lambda>(msk, r). if below msk r then headroom msk r
                                        else headroom msk (geodesic_dilation msk r) + 1)")
  show "wf (measure (\<lambda>(msk, r). if below msk r then headroom msk r
                                        else headroom msk (geodesic_dilation msk r) + 1))"
    by simp
next
  fix msk r r'
  assume "r' = geodesic_dilation msk r" and "r' \<noteq> r"
  then show "((msk, r'), (msk, r)) \<in> measure (\<lambda>(msk, r). if below msk r then headroom msk r
                                        else headroom msk (geodesic_dilation msk r) + 1)"
    using headroom_decreases [of msk r] below_dilation [of msk r] by auto
qed

declare reconstruct_loop.simps [simp del]


lemma reconstruct_loop_below: "below msk (reconstruct_loop msk r)"
proof (induction msk r rule: reconstruct_loop.induct)
  case (1 msk r)
  show ?case
  proof (cases "geodesic_dilation msk r = r")
    case True
    then have "reconstruct_loop msk r = r" by (subst reconstruct_loop.simps) simp
    moreover have "below msk (geodesic_dilation msk r)" by (rule below_dilation)
    ultimately show ?thesis using True by simp
  next
    case False
    then have "reconstruct_loop msk r = reconstruct_loop msk (geodesic_dilation msk r)"
      by (subst reconstruct_loop.simps) (simp add: Let_def)
    with 1 [OF refl False] show ?thesis by simp
  qed
qed

lemma reconstruct_loop_shape: "map length (reconstruct_loop msk r) = map length r"
proof (induction msk r rule: reconstruct_loop.induct)
  case (1 msk r)
  show ?case
  proof (cases "geodesic_dilation msk r = r")
    case True
    then show ?thesis by (subst reconstruct_loop.simps) simp
  next
    case False
    then have "reconstruct_loop msk r = reconstruct_loop msk (geodesic_dilation msk r)"
      by (subst reconstruct_loop.simps) (simp add: Let_def)
    with 1 [OF refl False] show ?thesis by (simp add: geodesic_dilation_map_length)
  qed
qed

lemma reconstruction_by_dilation_Inr:
  assumes "reconstruction_by_dilation seed msk = Inr d"
  shows "map length d = map length msk \<and> below msk d"
proof -
  from assms have s: "map length seed = map length msk" and d: "d = reconstruct_loop msk seed"
    by (auto simp: reconstruction_by_dilation_def split: if_splits)
  from d have "map length d = map length seed" by (simp add: reconstruct_loop_shape)
  with s d show ?thesis by (simp add: reconstruct_loop_below)
qed

lemma reconstruction_by_dilation_total:
  assumes "0 \<le> h"
  shows "\<exists>d. reconstruction_by_dilation (map (map (\<lambda>v. v - h)) b) b = Inr d"
proof -
  have "\<not> list_ex (\<lambda>(rs, rm). list_ex (\<lambda>(s, m). m < s) (zip rs rm)) (zip (map (map (\<lambda>v. v - h)) b) b)"
    using assms by (auto simp: list_ex_iff zip_map1 zip_same)
  then show ?thesis
    by (simp add: reconstruction_by_dilation_def comp_def)
qed

lemma np_sub_nonneg:
  assumes "map length d = map length b" and "below b d" and "np_sub b d = Inr hdome"
  shows "\<forall>row\<in>set hdome. \<forall>v\<in>set row. 0 \<le> v"
proof (intro ballI)
  fix row v assume row: "row \<in> set hdome" and v: "v \<in> set row"
  from assms(1) have len: "length d = length b" by (rule map_eq_imp_length_eq)
  from assms(3) have hd: "hdome = map (\<lambda>(ra, rb). map (\<lambda>(x, y). x - y) (zip ra rb)) (zip b d)"
    by (auto simp: np_sub_def split: if_splits)
  from row obtain i where i: "i < length b" and r: "row = map (\<lambda>(x, y). x - y) (zip (b ! i) (d ! i))"
    unfolding hd using len by (auto simp: in_set_conv_nth)
  have li: "length (d ! i) = length (b ! i)"
    using assms(1) i len by (metis nth_map)
  from v obtain j where j: "j < length (b ! i)" and ve: "v = b ! i ! j - d ! i ! j"
    unfolding r using li by (auto simp: in_set_conv_nth)
  have "(i, j) \<in> set (pixel_index d)"
    using i j len li by (simp add: set_pixel_index)
  with assms(2) have "d ! i ! j \<le> b ! i ! j" by (auto simp: below_def list_all_iff)
  with ve show "0 \<le> v" by simp
qed

text \<open>
  Claim C7. With reconstruction by dilation as modelled above, every pixel of the dome
  image \<open>filter_regional_maxima\<close> returns is at least 0, for every image, every blur and
  every height; and for a height of at least 0 it does return, with the shape of the
  blurred image. (For a negative height the seed exceeds the mask and the
  reconstruction raises.)
\<close>

theorem hdome_nonnegative:
  "(filter_regional_maxima (L\<lparr>reconstruction := reconstruction_by_dilation\<rparr>) img h = Inr hdome
      \<longrightarrow> (\<forall>row\<in>set hdome. \<forall>v\<in>set row. 0 \<le> v)) \<and>
   (0 \<le> h \<and> gaussian_filter L (map (map (\<lambda>(r, g, b). img_as_float b)) img) = Inr blurred
      \<longrightarrow> (\<exists>d. filter_regional_maxima (L\<lparr>reconstruction := reconstruction_by_dilation\<rparr>) img h
                 = Inr d \<and> map length d = map length blurred))"
proof (intro conjI impI)
  let ?L = "L\<lparr>reconstruction := reconstruction_by_dilation\<rparr>"
  assume a: "filter_regional_maxima ?L img h = Inr hdome"
  then obtain b d where "reconstruction_by_dilation (map (map (\<lambda>v. v - h)) b) b = Inr d"
    and s: "np_sub b d = Inr hdome"
    by (auto simp: filter_regional_maxima_def bind_e_def Let_def split: sum.splits)
  from reconstruction_by_dilation_Inr [OF this(1)] s
  show "\<forall>row\<in>set hdome. \<forall>v\<in>set row. 0 \<le> v"
    by (intro np_sub_nonneg [of d b hdome]) simp_all
next
  let ?L = "L\<lparr>reconstruction := reconstruction_by_dilation\<rparr>"
  assume "0 \<le> h \<and> gaussian_filter L (map (map (\<lambda>(r, g, b). img_as_float b)) img) = Inr blurred"
  then have h: "0 \<le> h" and g: "gaussian_filter L (map (map (\<lambda>(r, g, b). img_as_float b)) img) = Inr blurred"
    by simp_all
  from reconstruction_by_dilation_total [OF h] obtain d where
    d: "reconstruction_by_dilation (map (map (\<lambda>v. v - h)) blurred) blurred = Inr d" by blast
  from reconstruction_by_dilation_Inr [OF d] have sh: "map length d = map length blurred" by simp
  then have len: "length d = length blurred" by (rule map_eq_imp_length_eq)
  let ?out = "map (\<lambda>(ra, rb). map (\<lambda>(x, y). x - y) (zip ra rb)) (zip blurred d)"
  have "np_sub blurred d = Inr ?out" using sh by (simp add: np_sub_def)
  then have f: "filter_regional_maxima ?L img h = Inr ?out"
    by (simp add: filter_regional_maxima_def bind_e_def g d)
  have "map length ?out = map length blurred"
  proof (rule nth_equalityI)
    show "length (map length ?out) = length (map length blurred)" using len by simp
  next
    fix i assume "i < length (map length ?out)"
    then have i: "i < length blurred" using len by simp
    then have "length (d ! i) = length (blurred ! i)" using sh len by (metis nth_map)
    then show "map length ?out ! i = map length blurred ! i" using i len by simp
  qed
  with f show "\<exists>d. filter_regional_maxima ?L img h = Inr d \<and> map length d = map length blurred"
    by blast
qed

theorem hdome_nonnegative_witness:
  "filter_regional_maxima ((stub_lib [[0]] (\<lambda>rgb. Inr []))\<lparr>reconstruction := reconstruction_by_dilation\<rparr>)
     [[(0, 0, 51), (0, 0, 255), (0, 0, 0)]] (3 / 10) = Inr [[0, 3 / 10, 0]]"
proof -
  let ?L = "stub_lib [[0]] (\<lambda>rgb. Inr [])"
  let ?img = "[[(0, 0, 51), (0, 0, 255), (0, 0, 0)]] :: image"
  have e: "filter_regional_maxima (?L\<lparr>reconstruction := reconstruction_by_dilation\<rparr>) ?img (3 / 10)
             = Inr [[0, 3 / 10, 0]]"
    by code_simp
  from hdome_nonnegative [of ?L ?img "3 / 10" "[[0, 3 / 10, 0]]"] e
  have "\<forall>row\<in>set [[0, 3 / 10, 0 :: rat]]. \<forall>v\<in>set row. 0 \<le> v" by blast
  with e show ?thesis by simp
qed

end
